theory Spec2Isabelle
  imports Main "HOL-Library.Log_Nat" "HOL-Library.AList"
begin

section \<open>Python floats\<close>

text \<open>
  A Python \<^verbatim>\<open>float\<close> is an IEEE 754 binary64 number. Every finite one is a rational, so
  a float is modelled by the rational it denotes, and every arithmetic operation is the
  exact operation followed by rounding to the nearest representable number, ties to the
  even significand (\<open>rd\<close>). Subnormal numbers are covered by the lower bound on the
  exponent; overflow to infinity is not modelled (no quantity below reaches \<open>2 ^ 1024\<close>).
\<close>

definition round_half_even :: "rat \<Rightarrow> int" where
  "round_half_even q =
     (let f = \<lfloor>q\<rfloor>; r = q - of_int f
      in if r < 1 / 2 then f else if 1 / 2 < r then f + 1 else if even f then f else f + 1)"

definition pow2 :: "int \<Rightarrow> rat" where
  "pow2 e = (if 0 \<le> e then 2 ^ nat e else 1 / 2 ^ nat (- e))"

text \<open>The binary exponent of a non-zero rational: \<open>2 ^ expo q \<le> \<bar>q\<bar> < 2 ^ (expo q + 1)\<close>.\<close>

definition expo :: "rat \<Rightarrow> int" where
  "expo q =
     (let (a, b) = quotient_of \<bar>q\<bar>; d = bitlen a - bitlen b
      in if \<bar>q\<bar> < pow2 d then d - 1 else d)"

definition rd :: "rat \<Rightarrow> rat" where
  "rd q =
     (if q = 0 then 0
      else let u = pow2 (max (expo q) (- 1022) - 52)
           in of_int (round_half_even (q / u)) * u)"

definition fadd :: "rat \<Rightarrow> rat \<Rightarrow> rat" where
  "fadd a b = rd (a + b)"

definition fsub :: "rat \<Rightarrow> rat \<Rightarrow> rat" where
  "fsub a b = rd (a - b)"

definition fmul :: "rat \<Rightarrow> rat \<Rightarrow> rat" where
  "fmul a b = rd (a * b)"

definition fdiv :: "rat \<Rightarrow> rat \<Rightarrow> rat" where
  "fdiv a b = rd (a / b)"

text \<open>The float literals of the scripts: \<^verbatim>\<open>0.9\<close>, \<^verbatim>\<open>0.02\<close>, \<^verbatim>\<open>0.7\<close> and \<^verbatim>\<open>0.2\<close>.\<close>

definition d09 :: rat where "d09 = rd (9 / 10)"
definition d002 :: rat where "d002 = rd (1 / 50)"
definition d07 :: rat where "d07 = rd (7 / 10)"
definition d02 :: rat where "d02 = rd (1 / 5)"

section \<open>Errors, tensors and the distillation model\<close>

datatype error =
    ValueError
  | IndexError
  | UnboundLocalError
  | KeyError string
  | Exception string

text \<open>
  Image tensors are kept abstract: \<open>'x\<close> is the type of an image, and the three tensor
  operations the scripts use come with it (\<^verbatim>\<open>img * c\<close>, \<^verbatim>\<open>a + b\<close>, \<^verbatim>\<open>img / c\<close>).
  A sample is an image with its integer label.
\<close>

record 'x tensor_ops =
  t_mul :: "'x \<Rightarrow> rat \<Rightarrow> 'x"
  t_add :: "'x \<Rightarrow> 'x \<Rightarrow> 'x"
  t_div :: "'x \<Rightarrow> rat \<Rightarrow> 'x"

type_synonym 'x sample = "'x \<times> int"

text \<open>
  \<^verbatim>\<open>model.predict(x)\<close> returns the list of the per-class predictor features and the
  target feature. Features are vectors of numbers, of one length within a model; their
  arithmetic, which the tensor library does in floating point, is exact here.
\<close>

type_synonym feature = "rat list"

type_synonym 'x predictor = "'x \<Rightarrow> feature list \<times> feature"

text \<open>\<^verbatim>\<open>(target - predict).pow(2).sum(0) / 2\<close>\<close>

definition mse :: "feature \<Rightarrow> feature \<Rightarrow> rat" where
  "mse target predict = sum_list (map (\<lambda>(t, p). (t - p)\<^sup>2) (zip target predict)) / 2"

text \<open>
  \<^verbatim>\<open>mses = []; for predict in predict_features: mses.append(...)\<close>
\<close>

definition mses_of :: "feature list \<times> feature \<Rightarrow> rat list" where
  "mses_of pt = map (mse (snd pt)) (fst pt)"

text \<open>
  \<^verbatim>\<open>np.argmin\<close>: the index of the first occurrence of the minimum; an empty sequence
  raises \<^verbatim>\<open>ValueError\<close>.
\<close>

fun argmin_loop :: "rat list \<Rightarrow> nat \<Rightarrow> nat \<Rightarrow> rat \<Rightarrow> nat" where
  "argmin_loop [] i best_i best = best_i"
| "argmin_loop (x # xs) i best_i best =
     (if x < best then argmin_loop xs (Suc i) i x else argmin_loop xs (Suc i) best_i best)"

fun argmin :: "rat list \<Rightarrow> error + nat" where
  "argmin [] = Inl ValueError"
| "argmin (x # xs) = Inr (argmin_loop xs 1 0 x)"

text \<open>
  The classification both \<^verbatim>\<open>test\<close> and \<^verbatim>\<open>augment_data_distill\<close> compute from a
  prediction: the list \<^verbatim>\<open>mses\<close>, then \<^verbatim>\<open>class_min_mse = np.argmin(mses)\<close>.
\<close>

definition class_min_mse :: "'x predictor \<Rightarrow> 'x \<Rightarrow> error + nat" where
  "class_min_mse predict x = argmin (mses_of (predict x))"

section \<open>Random numbers\<close>

text \<open>
  The global NumPy generator is a sequence of draws \<open>rnd\<close> fixed by the seed, together with
  the number \<open>k\<close> of draws consumed so far. \<^verbatim>\<open>np.random.randint(n)\<close> consumes one draw
  and returns a number below \<open>n\<close>; it raises \<^verbatim>\<open>ValueError\<close> for \<open>n = 0\<close>.
\<close>

definition randint :: "(nat \<Rightarrow> nat) \<Rightarrow> nat \<Rightarrow> nat \<Rightarrow> error + nat \<times> nat" where
  "randint rnd k n = (if n = 0 then Inl ValueError else Inr (rnd k mod n, Suc k))"

section \<open>Distillation-guided interpolation: \<^verbatim>\<open>augment_data_distill\<close>\<close>

text \<open>\<^verbatim>\<open>a * c + b * (1 - c)\<close>\<close>

definition blend :: "'x tensor_ops \<Rightarrow> 'x \<Rightarrow> 'x \<Rightarrow> rat \<Rightarrow> 'x" where
  "blend ops a b c = t_add ops (t_mul ops a c) (t_mul ops b (fsub 1 c))"

text \<open>
  The rejection loop
  \<^verbatim>\<open>while samples[i_rand][1] == sample[1]: i_rand = np.random.randint(len(samples))\<close>.
  It need not terminate: \<open>None\<close> is a run that never leaves the loop.
\<close>

partial_function (option) resample ::
  "(nat \<Rightarrow> nat) \<Rightarrow> 'x sample list \<Rightarrow> 'x sample \<Rightarrow> nat \<Rightarrow> nat \<Rightarrow> (error + nat \<times> nat) option"
where
  "resample rnd samples sample i_rand k =
     (if length samples \<le> i_rand then Some (Inl IndexError)
      else if snd (samples ! i_rand) = snd sample then
        (case randint rnd k (length samples) of
           Inl e \<Rightarrow> Some (Inl e)
         | Inr (i', k') \<Rightarrow> resample rnd samples sample i' k')
      else Some (Inr (i_rand, k)))"

declare resample.simps [code]

text \<open>
  The coefficient search \<^verbatim>\<open>while True and th > 0.7: ...\<close>. The last argument counts the
  executed loop bodies; it is not a variable of the script and no result depends on it.
\<close>

partial_function (option) th_search ::
  "'x tensor_ops \<Rightarrow> 'x predictor \<Rightarrow> 'x sample \<Rightarrow> 'x \<Rightarrow> rat \<Rightarrow> nat \<Rightarrow> (error + rat \<times> nat) option"
where
  "th_search ops predict sample x_rand th n =
     (if d07 < th then
        (case class_min_mse predict (blend ops (fst sample) x_rand th) of
           Inl e \<Rightarrow> Some (Inl e)
         | Inr c \<Rightarrow>
             if int c \<noteq> snd sample then Some (Inr (th, Suc n))
             else th_search ops predict sample x_rand (fsub th d002) (Suc n))
      else Some (Inr (th, n)))"

declare th_search.simps [code]

text \<open>The body of the \<^verbatim>\<open>for sample in samples[:int(len(samples)*0.2)]\<close> loop.\<close>

definition augment_one ::
  "'x tensor_ops \<Rightarrow> 'x predictor \<Rightarrow> (nat \<Rightarrow> nat) \<Rightarrow> 'x sample list \<Rightarrow> 'x sample \<Rightarrow> nat
     \<Rightarrow> (error + 'x sample \<times> nat) option"
where
  "augment_one ops predict rnd samples sample k =
     (case randint rnd k (length samples) of
        Inl e \<Rightarrow> Some (Inl e)
      | Inr (i0, k0) \<Rightarrow>
          (case resample rnd samples sample i0 k0 of
             None \<Rightarrow> None
           | Some (Inl e) \<Rightarrow> Some (Inl e)
           | Some (Inr (i_rand, k1)) \<Rightarrow>
               (let x_rand = fst (samples ! i_rand)
                in case th_search ops predict sample x_rand d09 0 of
                     None \<Rightarrow> None
                   | Some (Inl e) \<Rightarrow> Some (Inl e)
                   | Some (Inr (th, n)) \<Rightarrow>
                       (let threshold = fdiv (fadd d09 th) 2
                        in Some (Inr ((blend ops (fst sample) x_rand threshold, snd sample),
                                      k1))))))"

fun augment_loop ::
  "'x tensor_ops \<Rightarrow> 'x predictor \<Rightarrow> (nat \<Rightarrow> nat) \<Rightarrow> 'x sample list \<Rightarrow> 'x sample list \<Rightarrow> nat
     \<Rightarrow> 'x list \<Rightarrow> int list \<Rightarrow> (error + 'x list \<times> int list \<times> nat) option"
where
  "augment_loop ops predict rnd samples [] k aug_samples_x aug_samples_y =
     Some (Inr (aug_samples_x, aug_samples_y, k))"
| "augment_loop ops predict rnd samples (sample # rest) k aug_samples_x aug_samples_y =
     (case augment_one ops predict rnd samples sample k of
        None \<Rightarrow> None
      | Some (Inl e) \<Rightarrow> Some (Inl e)
      | Some (Inr ((x, y), k')) \<Rightarrow>
          augment_loop ops predict rnd samples rest k'
            (aug_samples_x @ [x]) (aug_samples_y @ [y]))"

text \<open>
  \<^verbatim>\<open>int(len(samples)*0.2)\<close>: the length is converted to a float, multiplied, and the
  product truncated.
\<close>

definition prefix_len :: "nat \<Rightarrow> nat" where
  "prefix_len n = nat \<lfloor>fmul (rd (of_nat n)) d02\<rfloor>"

definition augment_data_distill ::
  "'x tensor_ops \<Rightarrow> 'x predictor \<Rightarrow> (nat \<Rightarrow> nat) \<Rightarrow> 'x sample list \<Rightarrow> nat
     \<Rightarrow> (error + 'x sample list \<times> nat) option"
where
  "augment_data_distill ops predict rnd samples k =
     (case augment_loop ops predict rnd samples
             (take (prefix_len (length samples)) samples) k [] [] of
        None \<Rightarrow> None
      | Some (Inl e) \<Rightarrow> Some (Inl e)
      | Some (Inr (aug_samples_x, aug_samples_y, k')) \<Rightarrow>
          Some (Inr (samples @ zip aug_samples_x aug_samples_y, k')))"

section \<open>Episodic evaluation: \<^verbatim>\<open>test\<close>\<close>

text \<open>
  The loop \<^verbatim>\<open>for batch_i, (x, y) in enumerate(test_loader)\<close>. The loop variable
  \<^verbatim>\<open>batch_i\<close> is unbound (\<open>None\<close>) until the first iteration binds it.
\<close>

fun test_loop ::
  "'x predictor \<Rightarrow> 'x sample list \<Rightarrow> nat \<Rightarrow> nat \<Rightarrow> nat option \<Rightarrow> error + nat \<times> nat option"
where
  "test_loop predict [] i correct batch_i = Inr (correct, batch_i)"
| "test_loop predict ((x, y) # rest) i correct batch_i =
     (case class_min_mse predict x of
        Inl e \<Rightarrow> Inl e
      | Inr c \<Rightarrow>
          test_loop predict rest (Suc i) (if int c = y then correct + 1 else correct) (Some i))"

text \<open>
  \<^verbatim>\<open>acc = correct / (batch_i+1)\<close> is the true division of two integers, which Python rounds
  correctly to a float. Reading the unbound \<^verbatim>\<open>batch_i\<close> raises \<^verbatim>\<open>UnboundLocalError\<close>.
\<close>

definition test :: "'x predictor \<Rightarrow> 'x sample list \<Rightarrow> error + rat" where
  "test predict test_loader =
     (case test_loop predict test_loader 0 0 None of
        Inl e \<Rightarrow> Inl e
      | Inr (correct, batch_i) \<Rightarrow>
          (case batch_i of
             None \<Rightarrow> Inl UnboundLocalError
           | Some b \<Rightarrow> Inr (fdiv (of_nat correct) (of_nat (b + 1)))))"

section \<open>Pair-sample mixing\<close>


text \<open>Indexing a Python list with a non-negative index.\<close>

definition list_get :: "'a list \<Rightarrow> nat \<Rightarrow> error + 'a" where
  "list_get xs i = (if i < length xs then Inr (xs ! i) else Inl IndexError)"





section \<open>The experiment scripts: \<^verbatim>\<open>run_experiment\<close>\<close>








subsection \<open>The distillation script\<close>






subsection \<open>The pairing script\<close>







section \<open>The grid-search driver: \<^verbatim>\<open>params_search.py\<close>\<close>

text \<open>The values a configuration holds: strings, numbers, flags and library objects.\<close>

datatype pyval =
    VStr string
  | VInt int
  | VBool bool
  | VFloat rat
  | VObj string

fun truthy :: "pyval \<Rightarrow> bool" where
  "truthy (VStr s) = (s \<noteq> [])"
| "truthy (VInt i) = (i \<noteq> 0)"
| "truthy (VBool b) = b"
| "truthy (VFloat r) = (r \<noteq> 0)"
| "truthy (VObj _) = True"

text \<open>
  A Python dictionary keeps its keys in insertion order: an association list with distinct
  keys. \<open>configs\<close> maps every hyperparameter to the list of its candidate values; a grid
  point and a row of the results file map column names to values.
\<close>

type_synonym configs = "(string \<times> pyval list) list"

type_synonym row = "(string \<times> pyval) list"

definition dict_get :: "(string \<times> 'v) list \<Rightarrow> string \<Rightarrow> error + 'v" where
  "dict_get d key = (case map_of d key of None \<Rightarrow> Inl (KeyError key) | Some v \<Rightarrow> Inr v)"

text \<open>\<^verbatim>\<open>itertools.product(*values)\<close>: the last list varies fastest.\<close>

fun itertools_product :: "'a list list \<Rightarrow> 'a list list" where
  "itertools_product [] = [[]]"
| "itertools_product (xs # xss) =
     concat (map (\<lambda>x. map (\<lambda>v. x # v) (itertools_product xss)) xs)"

text \<open>
  Lines 82 and 83. Unpacking \<^verbatim>\<open>zip(*configs.items())\<close> into two names raises
  \<^verbatim>\<open>ValueError\<close> for an empty dictionary.
\<close>

definition param_grid :: "configs \<Rightarrow> error + row list" where
  "param_grid cs =
     (if cs = [] then Inl ValueError
      else (let keys = map fst cs; vals = map snd cs
            in Inr (map (\<lambda>v. zip keys v) (itertools_product vals))))"

text \<open>
  The experiment functions the driver imports, the clock (\<open>time t\<close> is the \<open>t\<close>-th reading of
  \<^verbatim>\<open>time()\<close>), and the results file: its columns and its rows, \<open>None\<close> while the file does
  not exist.
\<close>

record driver_env =
  run_experiment_omniglot :: "row \<Rightarrow> error + pyval"
  run_experiment_customer :: "row \<Rightarrow> error + pyval"
  run_experiment_full_test :: "row \<Rightarrow> error + pyval"
  run_experiment :: "row \<Rightarrow> error + pyval"
  time :: "nat \<Rightarrow> rat"

record csv =
  columns :: "string list"
  rows :: "row list"

text \<open>Lines 92 to 102.\<close>

definition select_exp_func ::
  "driver_env \<Rightarrow> configs \<Rightarrow> pyval \<Rightarrow> error + (row \<Rightarrow> error + pyval)"
where
  "select_exp_func D cs ds_name =
     (if ds_name = VStr ''omniglot'' then Inr (run_experiment_omniglot D)
      else if ds_name = VStr ''customer'' then Inr (run_experiment_customer D)
      else if ds_name \<in> set [VStr ''mnist'', VStr ''fashion_mnist'', VStr ''svhn''] then
        (case dict_get cs ''full_test'' of
           Inl e \<Rightarrow> Inl e
         | Inr vs \<Rightarrow>
             (case list_get vs 0 of
                Inl e \<Rightarrow> Inl e
              | Inr full_test \<Rightarrow>
                  if truthy full_test then Inr (run_experiment_full_test D)
                  else Inr (run_experiment D)))
      else Inl (Exception ''Unknown dataset!''))"

text \<open>
  \<^verbatim>\<open>df = pd.read_csv(res_path); df = df.append(pd.Series(row), ignore_index=True);
  df.to_csv(res_path, index=False)\<close>: the row is added at the end, and so are its columns
  that the file does not have yet.
\<close>

definition csv_append :: "csv \<Rightarrow> row \<Rightarrow> csv" where
  "csv_append f r =
     f\<lparr>columns := columns f @ filter (\<lambda>c. c \<notin> set (columns f)) (map fst r),
       rows := rows f @ [r]\<rparr>"

text \<open>
  The loop of lines 105 to 120, returning the exception that ended it, if any, with the
  file and the number of clock readings as they are then.
\<close>

fun grid_loop ::
  "driver_env \<Rightarrow> (row \<Rightarrow> error + pyval) \<Rightarrow> row list \<Rightarrow> csv \<Rightarrow> nat \<Rightarrow> error option \<times> csv \<times> nat"
where
  "grid_loop D exp_func [] f t = (None, f, t)"
| "grid_loop D exp_func (param # rest) f t =
     (let time_start = time D t
      in case exp_func param of
           Inl e \<Rightarrow> (Some e, f, Suc t)
         | Inr mean_accuracy \<Rightarrow>
             (let duration = fsub (time D (Suc t)) time_start;
                  r = AList.update ''duration_sec'' (VFloat duration)
                        (AList.update ''accuracy'' mean_accuracy param)
              in grid_loop D exp_func rest (csv_append f r) (Suc (Suc t))))"

definition main ::
  "driver_env \<Rightarrow> configs \<Rightarrow> csv option \<Rightarrow> nat \<Rightarrow> error option \<times> csv option \<times> nat"
where
  "main D cs file t =
     (case param_grid cs of
        Inl e \<Rightarrow> (Some e, file, t)
      | Inr grid \<Rightarrow>
     (case dict_get cs ''dataset'' of
        Inl e \<Rightarrow> (Some e, file, t)
      | Inr names \<Rightarrow>
     (case list_get names 0 of
        Inl e \<Rightarrow> (Some e, file, t)
      | Inr ds_name \<Rightarrow>
     (let f = (case file of None \<Rightarrow> \<lparr>columns = map fst cs, rows = []\<rparr> | Some f \<Rightarrow> f)
      in case select_exp_func D cs ds_name of
           Inl e \<Rightarrow> (Some e, Some f, t)
         | Inr exp_func \<Rightarrow>
             (case grid_loop D exp_func grid f t of
                (outcome, f', t') \<Rightarrow> (outcome, Some f', t'))))))"

section \<open>Notions used in the statements\<close>

text \<open>The coefficient \<^verbatim>\<open>th\<close> after \<open>k\<close> decrements: it starts at 0.9 and goes down by 0.02.\<close>

fun th_after :: "nat \<Rightarrow> rat" where
  "th_after 0 = d09"
| "th_after (Suc k) = fsub (th_after k) d002"



text \<open>
  The sample \<open>new\<close> is an interpolation of \<open>sample\<close> as \<^verbatim>\<open>augment_data_distill\<close> builds it:
  some drawn index \<open>j\<close> holds a sample with a different label; the coefficient was lowered
  \<open>m\<close> times, the model assigning the blend to the label of \<open>sample\<close> at every coefficient
  before; at the last coefficient the model assigns another class, or the coefficient is
  0.7 or below; and \<open>new\<close> is the blend at the coefficient \<^verbatim>\<open>(0.9 + th) / 2\<close>, with the
  label of \<open>sample\<close>.
\<close>

definition interpolated ::
  "'x tensor_ops \<Rightarrow> 'x predictor \<Rightarrow> (nat \<Rightarrow> nat) \<Rightarrow> 'x sample list \<Rightarrow> 'x sample \<Rightarrow> 'x sample
     \<Rightarrow> bool"
where
  "interpolated ops predict rnd samples sample new \<longleftrightarrow>
     (\<exists>j m. j < length samples \<and> snd (samples ! j) \<noteq> snd sample
        \<and> (\<exists>p. j = rnd p mod length samples)
        \<and> m \<le> 10
        \<and> (\<forall>l < m. \<exists>c.
              class_min_mse predict (blend ops (fst sample) (fst (samples ! j)) (th_after l))
                = Inr c \<and> int c = snd sample)
        \<and> ((\<exists>c. class_min_mse predict (blend ops (fst sample) (fst (samples ! j)) (th_after m))
                = Inr c \<and> int c \<noteq> snd sample)
             \<or> th_after m \<le> d07)
        \<and> new = (blend ops (fst sample) (fst (samples ! j)) (fdiv (fadd d09 (th_after m)) 2),
                  snd sample))"







section \<open>Example data\<close>

text \<open>
  Images of a single pixel, a model of two classes whose predictors answer 0 and 1 and
  whose target feature is the pixel itself, a generator that always draws the same number,
  and five samples of two classes.
\<close>

definition rat_ops :: "rat tensor_ops" where
  "rat_ops = \<lparr>t_mul = (\<lambda>x c. x * c), t_add = (\<lambda>a b. a + b), t_div = (\<lambda>x c. x / c)\<rparr>"

definition ex_predict :: "rat predictor" where
  "ex_predict x = ([[0], [1]], [x])"

definition draws_const :: "nat \<Rightarrow> nat \<Rightarrow> nat" where
  "draws_const c k = c"

definition ex_samples :: "rat sample list" where
  "ex_samples = [(1, 0), (0, 1), (0, 1), (0, 1), (0, 1)]"


definition ex_test :: "rat sample list" where
  "ex_test = [(1, 1), (0, 1)]"

text \<open>
  A driver environment whose experiment functions all return the accuracy one half, with
  a clock that stands still; one whose experiment functions all fail; and two
  configurations.
\<close>

definition ex_driver :: driver_env where
  "ex_driver =
     \<lparr>run_experiment_omniglot = (\<lambda>param. Inr (VFloat (1 / 2))),
      run_experiment_customer = (\<lambda>param. Inr (VFloat (1 / 2))),
      run_experiment_full_test = (\<lambda>param. Inr (VFloat (1 / 2))),
      run_experiment = (\<lambda>param. Inr (VFloat (1 / 2))),
      time = (\<lambda>t. 0)\<rparr>"

definition ex_configs :: configs where
  "ex_configs = [(''dataset'', [VStr ''omniglot'']), (''lr'', [VFloat 1, VFloat 2])]"









section \<open>Properties of float rounding\<close>

lemma pow2_powi: "pow2 e = 2 powi e"
  by (simp add: pow2_def power_int_def inverse_eq_divide power_one_over)

lemma pow2_pos: "0 < pow2 e"
  by (simp add: pow2_powi)

lemma pow2_add: "pow2 (a + b) = pow2 a * pow2 b"
  by (simp add: pow2_powi power_int_add)

lemma pow2_less_iff: "pow2 a < pow2 b \<longleftrightarrow> a < b"
proof
  assume "pow2 a < pow2 b"
  show "a < b"
  proof (rule ccontr)
    assume "\<not> a < b"
    then have "b \<le> a" by simp
    then have "pow2 b \<le> pow2 a"
      unfolding pow2_powi by (intro power_int_increasing) auto
    with \<open>pow2 a < pow2 b\<close> show False by simp
  qed
next
  assume "a < b"
  then show "pow2 a < pow2 b"
    unfolding pow2_powi by (intro power_int_strict_increasing) auto
qed

lemma pow2_le_iff: "pow2 a \<le> pow2 b \<longleftrightarrow> a \<le> b"
  using pow2_less_iff [of b a] by (auto simp: not_less [symmetric])

lemma pow2_nat: "0 \<le> e \<Longrightarrow> pow2 e = of_int (2 ^ nat e)"
  by (simp add: pow2_def)

lemma pow2_diff: "pow2 (a - b) = pow2 a / pow2 b"
  using pow2_add [of "a - b" b] pow2_pos [of b] by (simp add: field_simps)

lemma bitlen_pow2_bounds:
  assumes "0 < a"
  shows "pow2 (bitlen a - 1) \<le> of_int a" "of_int a < pow2 (bitlen a)"
proof -
  from assms have l: "1 \<le> bitlen a" by (simp add: bitlen_alt_def)
  from bitlen_bounds [OF assms]
  have "2 ^ nat (bitlen a - 1) \<le> a" "a < 2 ^ nat (bitlen a)" by simp_all
  then have "(of_int (2 ^ nat (bitlen a - 1)) :: rat) \<le> of_int a"
    "(of_int a :: rat) < of_int (2 ^ nat (bitlen a))"
    by (simp_all only: of_int_le_iff of_int_less_iff)
  with l show "pow2 (bitlen a - 1) \<le> of_int a" "of_int a < pow2 (bitlen a)"
    by (simp_all add: pow2_nat)
qed

lemma expo_bounds:
  assumes "q \<noteq> 0"
  shows "pow2 (expo q) \<le> \<bar>q\<bar> \<and> \<bar>q\<bar> < pow2 (expo q + 1)"
proof -
  obtain a b where ab: "quotient_of \<bar>q\<bar> = (a, b)" by (cases "quotient_of \<bar>q\<bar>")
  then have b: "0 < b" and q: "\<bar>q\<bar> = of_int a / of_int b"
    by (auto dest: quotient_of_denom_pos quotient_of_div)
  from assms have "0 < \<bar>q\<bar>" by simp
  with q b have a: "0 < a" by (simp add: zero_less_divide_iff)
  define d where "d = bitlen a - bitlen b"
  have ra: "(0::rat) < of_int a" and rb: "(0::rat) < of_int b" using a b by simp_all
  have "of_int a * pow2 (bitlen b - 1) < pow2 (bitlen a) * of_int b"
    using bitlen_pow2_bounds [OF a] bitlen_pow2_bounds [OF b] ra rb pow2_pos [of "bitlen b - 1"]
    by (intro mult_less_le_imp_less) simp_all
  then have "\<bar>q\<bar> < pow2 (bitlen a) / pow2 (bitlen b - 1)"
    using rb pow2_pos [of "bitlen b - 1"] by (simp add: q field_simps)
  then have up: "\<bar>q\<bar> < pow2 (d + 1)"
    using pow2_diff [of "bitlen a" "bitlen b - 1"] by (simp add: d_def algebra_simps)
  have "pow2 (bitlen a - 1) * of_int b < of_int a * pow2 (bitlen b)"
    using bitlen_pow2_bounds [OF a] bitlen_pow2_bounds [OF b] ra rb pow2_pos [of "bitlen a - 1"]
    by (intro mult_le_less_imp_less) simp_all
  then have "pow2 (bitlen a - 1) / pow2 (bitlen b) < \<bar>q\<bar>"
    using rb pow2_pos [of "bitlen b"] by (simp add: q field_simps)
  then have lo: "pow2 (d - 1) < \<bar>q\<bar>"
    using pow2_diff [of "bitlen a - 1" "bitlen b"] by (simp add: d_def algebra_simps)
  have e: "expo q = (if \<bar>q\<bar> < pow2 d then d - 1 else d)"
    by (simp add: expo_def ab d_def Let_def)
  show ?thesis
    using up lo by (simp add: e)
qed

lemma expo_unique:
  assumes "pow2 e \<le> \<bar>q\<bar>" "\<bar>q\<bar> < pow2 (e + 1)"
  shows "expo q = e"
proof -
  from assms pow2_pos [of e] have "q \<noteq> 0" by auto
  from expo_bounds [OF this] assms
  have "pow2 e < pow2 (expo q + 1)" "pow2 (expo q) < pow2 (e + 1)" by simp_all
  then show ?thesis by (simp add: pow2_less_iff)
qed

lemma round_half_even_ge_floor: "\<lfloor>q\<rfloor> \<le> round_half_even q"
  by (simp add: round_half_even_def Let_def)

lemma round_half_even_ge: "of_int m \<le> q \<Longrightarrow> m \<le> round_half_even q"
  using round_half_even_ge_floor [of q] by (simp add: le_floor_iff [symmetric])

lemma round_half_even_le: "q \<le> of_int m \<Longrightarrow> round_half_even q \<le> m"
proof -
  assume q: "q \<le> of_int m"
  then have f: "\<lfloor>q\<rfloor> \<le> m" by (simp add: floor_le_iff) 
  show ?thesis
  proof (cases "\<lfloor>q\<rfloor> = m")
    case True
    with q have "q = of_int \<lfloor>q\<rfloor>" using of_int_floor_le [of q] by simp
    then have "q - of_int \<lfloor>q\<rfloor> = 0" by simp
    then show ?thesis using f by (simp add: round_half_even_def Let_def)
  next
    case False
    with f have "\<lfloor>q\<rfloor> + 1 \<le> m" by simp
    then show ?thesis by (auto simp: round_half_even_def Let_def)
  qed
qed

lemma round_half_even_of_int: "round_half_even (of_int m) = m"
  by (simp add: round_half_even_def)

lemma rd_eqI:
  assumes "pow2 e \<le> \<bar>q\<bar>" "\<bar>q\<bar> < pow2 (e + 1)" "- 1022 \<le> e"
    and "round_half_even (q / pow2 (e - 52)) = m"
  shows "rd q = of_int m * pow2 (e - 52)"
proof -
  from assms pow2_pos [of e] have "q \<noteq> 0" by auto
  moreover have "expo q = e" using assms by (intro expo_unique)
  ultimately show ?thesis using assms by (simp add: rd_def max_def)
qed



lemma rd_of_nat:
  assumes "n < 2 ^ 53"
  shows "rd (of_nat n) = of_nat n"
proof (cases "n = 0")
  case True
  then show ?thesis by (simp add: rd_def)
next
  case False
  define q :: rat where "q = of_nat n"
  define e where "e = expo q"
  have n1: "(1::rat) \<le> of_nat n" using False by (simp add: Suc_le_eq flip: of_nat_Suc)
  have "(of_nat n :: rat) < of_nat (2 ^ 53)" using assms by (simp only: of_nat_less_iff)
  then have n2: "(of_nat n :: rat) < 2 ^ 53" by simp
  have q0: "q \<noteq> 0" and qpos: "0 < q" using n1 by (simp_all add: q_def)
  have ql: "pow2 0 \<le> q" using n1 by (simp add: q_def pow2_def)
  have qu: "q < pow2 53" using n2 by (simp add: q_def pow2_def)
  from expo_bounds [OF q0] qpos ql qu
  have "pow2 0 < pow2 (e + 1)" "pow2 e < pow2 53" by (simp_all add: e_def)
  then have e: "0 \<le> e" "e \<le> 52" by (simp_all add: pow2_less_iff)
  define U :: int where "U = 2 ^ nat (52 - e)"
  have Upos: "(0::rat) < of_int U" by (simp add: U_def)
  have "pow2 (e - 52) = 1 / pow2 (52 - e)"
    using pow2_diff [of 0 "52 - e"] by (simp add: pow2_def)
  also have "pow2 (52 - e) = of_int U"
    using pow2_nat [of "52 - e"] e by (simp add: U_def)
  finally have u: "pow2 (e - 52) = 1 / of_int U" .
  have "rd q = of_int (round_half_even (q / pow2 (e - 52))) * pow2 (e - 52)"
    using q0 e by (simp add: rd_def e_def max_def Let_def)
  also have "q / pow2 (e - 52) = of_int (int n * U)"
    by (simp add: u q_def)
  also have "round_half_even (of_int (int n * U)) = int n * U"
    by (rule round_half_even_of_int)
  finally show ?thesis using Upos by (simp add: u q_def)
qed

lemma round_half_even_eqI:
  assumes "of_int m - 1 / 2 < q" "q < of_int m + 1 / 2"
  shows "round_half_even q = m"
proof -
  have "\<lfloor>q\<rfloor> = m \<or> \<lfloor>q\<rfloor> = m - 1"
  proof -
    from assms have "of_int (m - 1) \<le> q" "q < of_int (m + 1)" by simp_all
    then have "m - 1 \<le> \<lfloor>q\<rfloor>" "\<lfloor>q\<rfloor> < m + 1" by (simp_all only: le_floor_iff floor_less_iff)
    then show ?thesis by arith
  qed
  then show ?thesis
  proof
    assume "\<lfloor>q\<rfloor> = m"
    with assms show ?thesis by (simp add: round_half_even_def Let_def)
  next
    assume "\<lfloor>q\<rfloor> = m - 1"
    with assms show ?thesis by (simp add: round_half_even_def Let_def)
  qed
qed

lemma rd_val:
  assumes "pow2 e \<le> \<bar>q\<bar>" "\<bar>q\<bar> < pow2 (e + 1)" "- 1022 \<le> e"
    and "of_int m - 1 / 2 < q / pow2 (e - 52)" "q / pow2 (e - 52) < of_int m + 1 / 2"
  shows "rd q = of_int m * pow2 (e - 52)"
  using assms by (intro rd_eqI round_half_even_eqI)

subsection \<open>The float constants of the scripts\<close>

lemma d09_val: "d09 = 8106479329266893 / 2 ^ 53"
  unfolding d09_def by (rule trans [OF rd_val [where e = "- 1" and m = 8106479329266893]])
    (simp_all add: pow2_def)

lemma d002_val: "d002 = 5764607523034235 / 2 ^ 58"
  unfolding d002_def by (rule trans [OF rd_val [where e = "- 6" and m = 5764607523034235]])
    (simp_all add: pow2_def)

lemma d07_val: "d07 = 6305039478318694 / 2 ^ 53"
  unfolding d07_def by (rule trans [OF rd_val [where e = "- 1" and m = 6305039478318694]])
    (simp_all add: pow2_def)

lemma d02_val: "d02 = 3602879701896397 / 2 ^ 54"
  unfolding d02_def by (rule trans [OF rd_val [where e = "- 3" and m = 7205759403792794]])
    (simp_all add: pow2_def)

lemma prefix_len_div5:
  assumes "n < 2 ^ 32"
  shows "prefix_len n = n div 5"
proof (cases "n = 0")
  case True
  then show ?thesis by (simp add: prefix_len_def fmul_def rd_def)
next
  case False
  define q :: rat where "q = of_nat n * d02"
  define k :: int where "k = int (n div 5)"
  define e where "e = expo q"
  define u where "u = pow2 (e - 52)"
  have n1: "(1::rat) \<le> of_nat n" using False by (simp add: Suc_le_eq flip: of_nat_Suc)
  have n2: "(of_nat n :: rat) < 2 ^ 32"
    using assms by (metis of_nat_less_iff of_nat_numeral of_nat_power)
  have qpos: "0 < q" using n1 by (simp add: q_def d02_val)
  then have q0: "q \<noteq> 0" by simp
  have ql: "pow2 (- 3) \<le> q" using n1 by (simp add: q_def d02_val pow2_def)
  have qu: "q < pow2 30" using n2 by (simp add: q_def d02_val pow2_def)
  from expo_bounds [OF q0] qpos ql qu
  have "pow2 (- 3) < pow2 (e + 1)" "pow2 e < pow2 30" by (simp_all add: e_def)
  then have e: "- 3 \<le> e" "e \<le> 29" by (simp_all add: pow2_less_iff)
  have u: "0 < u" by (simp add: u_def pow2_pos)
  have rd: "rd q = of_int (round_half_even (q / u)) * u"
    using q0 e by (simp add: rd_def u_def e_def max_def Let_def)
  define U :: int where "U = 2 ^ nat (52 - e)"
  have iu: "1 / u = of_int U"
    using pow2_diff [of 0 "e - 52"] pow2_nat [of "52 - e"] e by (simp add: u_def pow2_def U_def)
  have ule: "u \<le> pow2 (- 23)" using e by (simp add: u_def pow2_le_iff)
  have nk: "5 * k \<le> int n" "int n \<le> 5 * k + 4" by (simp_all add: k_def)
  then have "(of_int (5 * k) :: rat) \<le> of_int (int n)"
    "(of_int (int n) :: rat) \<le> of_int (5 * k + 4)"
    by (simp_all only: of_int_le_iff)
  then have rnk: "5 * of_int k \<le> (of_nat n :: rat)" "(of_nat n :: rat) \<le> 5 * of_int k + 4"
    by simp_all
  have klo: "of_int k \<le> q" using rnk by (simp add: q_def d02_val)
  have kup: "q \<le> of_int k + 1 - pow2 (- 23)"
    using rnk n2 by (simp add: q_def d02_val pow2_def)
  have Upos: "(0::rat) < of_int U" by (simp add: U_def)
  have "u = 1 / (1 / u)" by simp
  then have ueq: "u = 1 / of_int U" by (simp only: iu)
  have rdU: "rd q = of_int (round_half_even (q * of_int U)) / of_int U"
    by (simp add: rd ueq)
  have "of_int (k * U) \<le> q * of_int U"
    using klo Upos by (simp add: mult_right_mono)
  then have "k * U \<le> round_half_even (q * of_int U)" by (rule round_half_even_ge)
  then have "(of_int (k * U) :: rat) \<le> of_int (round_half_even (q * of_int U))"
    by (simp only: of_int_le_iff)
  then have lo: "of_int k \<le> rd q"
    using Upos by (simp add: rdU pos_le_divide_eq)
  have "q \<le> of_int k + 1 - 1 / of_int U" using kup ule by (simp add: ueq)
  then have "q * of_int U \<le> (of_int k + 1 - 1 / of_int U) * of_int U"
    using Upos by (simp only: mult_le_cancel_right_pos)
  also have "\<dots> = of_int ((k + 1) * U - 1)"
    using Upos by (simp add: algebra_simps)
  finally have "round_half_even (q * of_int U) \<le> (k + 1) * U - 1"
    by (rule round_half_even_le)
  then have "(of_int (round_half_even (q * of_int U)) :: rat) \<le> of_int ((k + 1) * U - 1)"
    by (simp only: of_int_le_iff)
  also have "\<dots> < (of_int k + 1) * of_int U" by simp
  finally have up: "rd q < of_int k + 1"
    using Upos by (simp add: rdU pos_divide_less_eq)
  from lo up have "\<lfloor>rd q\<rfloor> = k" by (simp add: floor_unique)
  moreover have "rd (of_nat n) = (of_nat n :: rat)"
    using assms by (intro rd_of_nat) simp
  ultimately show ?thesis by (simp add: prefix_len_def fmul_def q_def k_def)
qed

subsection \<open>The coefficients of the search\<close>

lemma th_step_0: "fsub (8106479329266893 / 2 ^ 53) d002 = 7926335344172073 / 2 ^ 53"
  unfolding fsub_def d002_val
  by (rule trans [OF rd_val [where e = "- 1" and m = 7926335344172073]]) (simp_all add: pow2_def)

lemma th_step_1: "fsub (7926335344172073 / 2 ^ 53) d002 = 7746191359077253 / 2 ^ 53"
  unfolding fsub_def d002_val
  by (rule trans [OF rd_val [where e = "- 1" and m = 7746191359077253]]) (simp_all add: pow2_def)

lemma th_step_2: "fsub (7746191359077253 / 2 ^ 53) d002 = 7566047373982433 / 2 ^ 53"
  unfolding fsub_def d002_val
  by (rule trans [OF rd_val [where e = "- 1" and m = 7566047373982433]]) (simp_all add: pow2_def)

lemma th_step_3: "fsub (7566047373982433 / 2 ^ 53) d002 = 7385903388887613 / 2 ^ 53"
  unfolding fsub_def d002_val
  by (rule trans [OF rd_val [where e = "- 1" and m = 7385903388887613]]) (simp_all add: pow2_def)

lemma th_step_4: "fsub (7385903388887613 / 2 ^ 53) d002 = 7205759403792793 / 2 ^ 53"
  unfolding fsub_def d002_val
  by (rule trans [OF rd_val [where e = "- 1" and m = 7205759403792793]]) (simp_all add: pow2_def)

lemma th_step_5: "fsub (7205759403792793 / 2 ^ 53) d002 = 7025615418697973 / 2 ^ 53"
  unfolding fsub_def d002_val
  by (rule trans [OF rd_val [where e = "- 1" and m = 7025615418697973]]) (simp_all add: pow2_def)

lemma th_step_6: "fsub (7025615418697973 / 2 ^ 53) d002 = 6845471433603153 / 2 ^ 53"
  unfolding fsub_def d002_val
  by (rule trans [OF rd_val [where e = "- 1" and m = 6845471433603153]]) (simp_all add: pow2_def)

lemma th_step_7: "fsub (6845471433603153 / 2 ^ 53) d002 = 6665327448508333 / 2 ^ 53"
  unfolding fsub_def d002_val
  by (rule trans [OF rd_val [where e = "- 1" and m = 6665327448508333]]) (simp_all add: pow2_def)

lemma th_step_8: "fsub (6665327448508333 / 2 ^ 53) d002 = 6485183463413513 / 2 ^ 53"
  unfolding fsub_def d002_val
  by (rule trans [OF rd_val [where e = "- 1" and m = 6485183463413513]]) (simp_all add: pow2_def)

lemma th_step_9: "fsub (6485183463413513 / 2 ^ 53) d002 = 6305039478318693 / 2 ^ 53"
  unfolding fsub_def d002_val
  by (rule trans [OF rd_val [where e = "- 1" and m = 6305039478318693]]) (simp_all add: pow2_def)

lemmas th_step = th_step_0 th_step_1 th_step_2 th_step_3 th_step_4 th_step_5 th_step_6 th_step_7 th_step_8 th_step_9

lemma th_after_vals:
  "th_after 0 = 8106479329266893 / 2 ^ 53"
  "th_after (Suc 0) = 7926335344172073 / 2 ^ 53"
  "th_after (Suc (Suc 0)) = 7746191359077253 / 2 ^ 53"
  "th_after (Suc (Suc (Suc 0))) = 7566047373982433 / 2 ^ 53"
  "th_after (Suc (Suc (Suc (Suc 0)))) = 7385903388887613 / 2 ^ 53"
  "th_after (Suc (Suc (Suc (Suc (Suc 0))))) = 7205759403792793 / 2 ^ 53"
  "th_after (Suc (Suc (Suc (Suc (Suc (Suc 0)))))) = 7025615418697973 / 2 ^ 53"
  "th_after (Suc (Suc (Suc (Suc (Suc (Suc (Suc 0))))))) = 6845471433603153 / 2 ^ 53"
  "th_after (Suc (Suc (Suc (Suc (Suc (Suc (Suc (Suc 0)))))))) = 6665327448508333 / 2 ^ 53"
  "th_after (Suc (Suc (Suc (Suc (Suc (Suc (Suc (Suc (Suc 0))))))))) = 6485183463413513 / 2 ^ 53"
  "th_after (Suc (Suc (Suc (Suc (Suc (Suc (Suc (Suc (Suc (Suc 0)))))))))) = 6305039478318693 / 2 ^ 53"
  by (simp_all only: th_after.simps d09_val th_step)

lemma th_after_gt: "k < 10 \<Longrightarrow> d07 < th_after k"
proof -
  assume "k < 10"
  then have "k = 0 \<or> k = Suc 0 \<or> k = Suc (Suc 0) \<or> k = Suc (Suc (Suc 0))
    \<or> k = Suc (Suc (Suc (Suc 0))) \<or> k = Suc (Suc (Suc (Suc (Suc 0))))
    \<or> k = Suc (Suc (Suc (Suc (Suc (Suc 0))))) \<or> k = Suc (Suc (Suc (Suc (Suc (Suc (Suc 0))))))
    \<or> k = Suc (Suc (Suc (Suc (Suc (Suc (Suc (Suc 0)))))))
    \<or> k = Suc (Suc (Suc (Suc (Suc (Suc (Suc (Suc (Suc 0))))))))"
    by arith
  then show ?thesis
    by (elim disjE) (simp_all add: th_after_vals d07_val del: th_after.simps)
qed

lemma th_after_10: "\<not> d07 < th_after 10"
proof -
  have "(10::nat) = Suc (Suc (Suc (Suc (Suc (Suc (Suc (Suc (Suc (Suc 0)))))))))" by simp
  then show ?thesis
    by (simp only: th_after_vals d07_val) simp
qed

section \<open>The loops of the interpolation augmentation\<close>

lemma resample_sound_aux:
  assumes "resample rnd samples sample i k = Some r"
  shows "case r of Inl e \<Rightarrow> True
     | Inr (j, k') \<Rightarrow> j < length samples \<and> snd (samples ! j) \<noteq> snd sample
         \<and> (j = i \<or> (\<exists>p. j = rnd p mod length samples))"
  apply (rule resample.raw_induct [where P = "\<lambda>rnd samples sample i k r.
     case r of Inl e \<Rightarrow> True
     | Inr (j, k') \<Rightarrow> j < length samples \<and> snd (samples ! j) \<noteq> snd sample
         \<and> (j = i \<or> (\<exists>p. j = rnd p mod length samples))", OF _ assms])
  subgoal premises prems for rs rnd samples sample i k r
  proof (cases "length samples \<le> i \<or> snd (samples ! i) \<noteq> snd sample")
    case True
    with prems(2) show ?thesis by (auto split: if_splits)
  next
    case False
    show ?thesis
    proof (cases "randint rnd k (length samples)")
      case (Inl e)
      with False prems(2) show ?thesis by auto
    next
      case (Inr p)
      obtain i' k1 where p: "p = (i', k1)" by (cases p)
      with Inr have i': "i' = rnd k mod length samples"
        by (auto simp: randint_def split: if_splits)
      from False prems(2) Inr p have "rs rnd samples sample i' k1 = Some r" by auto
      from prems(1) [OF this] i' show ?thesis by (auto split: sum.splits)
    qed
  qed
  done

lemma resample_sound:
  assumes "resample rnd samples sample i k = Some (Inr (j, k'))"
  shows "j < length samples \<and> snd (samples ! j) \<noteq> snd sample
    \<and> (j = i \<or> (\<exists>p. j = rnd p mod length samples))"
  using resample_sound_aux [OF assms] by simp



lemma th_search_from:
  assumes "k \<le> 10"
  shows "\<exists>r. th_search ops predict sample x_rand (th_after k) n = Some r \<and>
     (case r of
        Inl e \<Rightarrow> True
      | Inr (th, n') \<Rightarrow>
          \<exists>m. k \<le> m \<and> m \<le> 10 \<and> th = th_after m \<and> n' \<le> n + (10 - k)
            \<and> (\<forall>l. k \<le> l \<and> l < m \<longrightarrow>
                  (\<exists>c. class_min_mse predict (blend ops (fst sample) x_rand (th_after l)) = Inr c
                     \<and> int c = snd sample))
            \<and> ((\<exists>c. class_min_mse predict (blend ops (fst sample) x_rand th) = Inr c
                     \<and> int c \<noteq> snd sample) \<or> \<not> d07 < th))"
  using assms
proof (induction "10 - k" arbitrary: k n)
  case 0
  then have k: "k = 10" by simp
  have "th_search ops predict sample x_rand (th_after 10) n = Some (Inr (th_after 10, n))"
    by (subst th_search.simps) (simp add: th_after_10)
  then show ?case
    unfolding k using th_after_10 by (intro exI [of _ "Inr (th_after 10, n)"]) auto
next
  case (Suc d)
  then have k: "k < 10" by simp
  then have gt: "d07 < th_after k" by (rule th_after_gt)
  let ?cls = "\<lambda>th. class_min_mse predict (blend ops (fst sample) x_rand th)"
  show ?case
  proof (cases "?cls (th_after k)")
    case (Inl e)
    have "th_search ops predict sample x_rand (th_after k) n = Some (Inl e)"
      by (subst th_search.simps) (simp add: gt Inl)
    then show ?thesis by simp
  next
    case (Inr c)
    show ?thesis
    proof (cases "int c = snd sample")
      case False
      have "th_search ops predict sample x_rand (th_after k) n = Some (Inr (th_after k, Suc n))"
        by (subst th_search.simps) (simp add: gt Inr False)
      moreover have "Suc n \<le> n + (10 - k)" using k by simp
      ultimately show ?thesis
        using k Inr False by (intro exI [of _ "Inr (th_after k, Suc n)"]) auto
    next
      case True
      have step: "th_search ops predict sample x_rand (th_after k) n =
          th_search ops predict sample x_rand (th_after (Suc k)) (Suc n)"
        by (subst th_search.simps) (simp add: gt Inr True)
      from Suc have "d = 10 - Suc k" "Suc k \<le> 10" by simp_all
      from Suc.hyps(1) [OF this, of "Suc n"]
      obtain r where r: "th_search ops predict sample x_rand (th_after (Suc k)) (Suc n) = Some r"
        and post: "case r of
        Inl e \<Rightarrow> True
      | Inr (th, n') \<Rightarrow>
          \<exists>m. Suc k \<le> m \<and> m \<le> 10 \<and> th = th_after m \<and> n' \<le> Suc n + (10 - Suc k)
            \<and> (\<forall>l. Suc k \<le> l \<and> l < m \<longrightarrow> (\<exists>c. ?cls (th_after l) = Inr c \<and> int c = snd sample))
            \<and> ((\<exists>c. ?cls th = Inr c \<and> int c \<noteq> snd sample) \<or> \<not> d07 < th)"
        by blast
      show ?thesis
      proof (cases r)
        case (Inl e)
        with r step show ?thesis by simp
      next
        case (Inr p)
        obtain th n' where p: "p = (th, n')" by (cases p)
        from post Inr p obtain m where m: "Suc k \<le> m" "m \<le> 10" "th = th_after m"
          "n' \<le> Suc n + (10 - Suc k)"
          "\<forall>l. Suc k \<le> l \<and> l < m \<longrightarrow> (\<exists>c. ?cls (th_after l) = Inr c \<and> int c = snd sample)"
          "(\<exists>c. ?cls th = Inr c \<and> int c \<noteq> snd sample) \<or> \<not> d07 < th"
          by auto
        have all: "\<forall>l. k \<le> l \<and> l < m \<longrightarrow> (\<exists>c. ?cls (th_after l) = Inr c \<and> int c = snd sample)"
        proof (intro allI impI)
          fix l assume l: "k \<le> l \<and> l < m"
          show "\<exists>c. ?cls (th_after l) = Inr c \<and> int c = snd sample"
          proof (cases "l = k")
            case True
            with \<open>?cls (th_after k) = Inr c\<close> \<open>int c = snd sample\<close> show ?thesis by simp
          next
            case False
            with l have "Suc k \<le> l \<and> l < m" by simp
            with m(5) show ?thesis by blast
          qed
        qed
        from m k have "k \<le> m" "n' \<le> n + (10 - k)" by simp_all
        with m all have "\<exists>m. k \<le> m \<and> m \<le> 10 \<and> th = th_after m \<and> n' \<le> n + (10 - k)
            \<and> (\<forall>l. k \<le> l \<and> l < m \<longrightarrow> (\<exists>c. ?cls (th_after l) = Inr c \<and> int c = snd sample))
            \<and> ((\<exists>c. ?cls th = Inr c \<and> int c \<noteq> snd sample) \<or> \<not> d07 < th)"
          by blast
        with r step Inr p show ?thesis by simp
      qed
    qed
  qed
qed

lemma augment_one_sound:
  assumes "augment_one ops predict rnd samples sample k = Some (Inr (new, k'))"
  shows "interpolated ops predict rnd samples sample new"
proof -
  from assms obtain i0 k0 where r0: "randint rnd k (length samples) = Inr (i0, k0)"
    by (auto simp: augment_one_def split: sum.splits)
  then have i0: "i0 = rnd k mod length samples"
    by (auto simp: randint_def split: if_splits)
  from assms r0 obtain j k1 where rs: "resample rnd samples sample i0 k0 = Some (Inr (j, k1))"
    by (auto simp: augment_one_def split: sum.splits option.splits)
  from resample_sound [OF rs] i0
  have j: "j < length samples" "snd (samples ! j) \<noteq> snd sample"
    "\<exists>p. j = rnd p mod length samples" by auto
  let ?x = "fst (samples ! j)"
  from assms r0 rs obtain th n
    where ts: "th_search ops predict sample ?x d09 0 = Some (Inr (th, n))"
      and new: "new = (blend ops (fst sample) ?x (fdiv (fadd d09 th) 2), snd sample)"
    by (auto simp: augment_one_def Let_def split: sum.splits option.splits)
  from th_search_from [of 0 ops predict sample ?x 0] ts
  obtain m where m: "m \<le> 10" "th = th_after m"
    "\<forall>l. l < m \<longrightarrow> (\<exists>c. class_min_mse predict (blend ops (fst sample) ?x (th_after l)) = Inr c
        \<and> int c = snd sample)"
    "(\<exists>c. class_min_mse predict (blend ops (fst sample) ?x th) = Inr c \<and> int c \<noteq> snd sample)
       \<or> \<not> d07 < th"
    by auto
  from m(4) have stop: "(\<exists>c. class_min_mse predict (blend ops (fst sample) ?x (th_after m)) = Inr c
        \<and> int c \<noteq> snd sample) \<or> th_after m \<le> d07"
    unfolding m(2) by (simp only: not_less)
  from m(3) have keep: "\<forall>l < m. \<exists>c.
      class_min_mse predict (blend ops (fst sample) ?x (th_after l)) = Inr c \<and> int c = snd sample"
    by blast
  from new have new': "new = (blend ops (fst sample) ?x (fdiv (fadd d09 (th_after m)) 2), snd sample)"
    by (simp only: m(2))
  show ?thesis
    unfolding interpolated_def
    by (rule exI [of _ j], rule exI [of _ m]) (intro conjI j m(1) keep stop new')
qed

lemma augment_loop_sound:
  assumes "augment_loop ops predict rnd samples pre k xs ys = Some (Inr (xs', ys', k'))"
    and "length xs = length ys"
  shows "\<exists>news. length news = length pre \<and> xs' = xs @ map fst news \<and> ys' = ys @ map snd news
    \<and> (\<forall>i < length pre. interpolated ops predict rnd samples (pre ! i) (news ! i))"
  using assms
proof (induction pre arbitrary: k xs ys)
  case Nil
  then show ?case by simp
next
  case (Cons sample rest)
  from Cons.prems(1) obtain x y k1
    where one: "augment_one ops predict rnd samples sample k = Some (Inr ((x, y), k1))"
      and rec: "augment_loop ops predict rnd samples rest k1 (xs @ [x]) (ys @ [y])
        = Some (Inr (xs', ys', k'))"
    by (auto split: option.splits sum.splits)
  from Cons.IH [OF rec] Cons.prems(2)
  obtain news where news: "length news = length rest" "xs' = (xs @ [x]) @ map fst news"
    "ys' = (ys @ [y]) @ map snd news"
    "\<forall>i < length rest. interpolated ops predict rnd samples (rest ! i) (news ! i)"
    by auto
  have "\<forall>i < length (sample # rest).
      interpolated ops predict rnd samples ((sample # rest) ! i) (((x, y) # news) ! i)"
  proof (intro allI impI)
    fix i assume "i < length (sample # rest)"
    then show "interpolated ops predict rnd samples ((sample # rest) ! i) (((x, y) # news) ! i)"
      using augment_one_sound [OF one] news(4) by (cases i) simp_all
  qed
  with news show ?case
    by (intro exI [of _ "(x, y) # news"]) simp
qed

lemma augment_data_distill_sound:
  assumes "augment_data_distill ops predict rnd samples k = Some (Inr (out, k'))"
  shows "\<exists>news. out = samples @ news
    \<and> length news = length (take (prefix_len (length samples)) samples)
    \<and> (\<forall>i < length news. interpolated ops predict rnd samples (samples ! i) (news ! i))"
proof -
  let ?pre = "take (prefix_len (length samples)) samples"
  from assms obtain xs ys
    where loop: "augment_loop ops predict rnd samples ?pre k [] [] = Some (Inr (xs, ys, k'))"
      and out: "out = samples @ zip xs ys"
    by (auto simp: augment_data_distill_def split: option.splits sum.splits)
  from augment_loop_sound [OF loop]
  obtain news where news: "length news = length ?pre" "xs = map fst news" "ys = map snd news"
    "\<forall>i < length ?pre. interpolated ops predict rnd samples (?pre ! i) (news ! i)"
    by auto
  have "zip xs ys = news" unfolding news by (simp add: zip_map_fst_snd)
  moreover have "\<forall>i < length news. interpolated ops predict rnd samples (samples ! i) (news ! i)"
    using news(1,4) by simp
  ultimately show ?thesis using out news(1) by blast
qed

lemma interpolated_label:
  "interpolated ops predict rnd samples sample new \<Longrightarrow> snd new = snd sample"
  by (auto simp: interpolated_def)



section \<open>An example run of the interpolation augmentation\<close>

lemma rd_d09: "rd (8106479329266893 / 2 ^ 53) = 8106479329266893 / 2 ^ 53"
  by (rule trans [OF rd_val [where e = "- 1" and m = 8106479329266893]]) (simp_all add: pow2_def)

lemma rd_2d09: "rd (8106479329266893 / 2 ^ 52) = 8106479329266893 / 2 ^ 52"
  by (rule trans [OF rd_val [where e = 0 and m = 8106479329266893]]) (simp_all add: pow2_def)

lemma ex_threshold: "fdiv (fadd d09 d09) 2 = d09"
proof -
  have "d09 + d09 = 8106479329266893 / 2 ^ 52" by (simp add: d09_val)
  then have "fadd d09 d09 = 8106479329266893 / 2 ^ 52" by (simp only: fadd_def rd_2d09)
  moreover have "(8106479329266893 / 2 ^ 52) / 2 = (8106479329266893 / 2 ^ 53 :: rat)" by simp
  ultimately show ?thesis by (simp only: fdiv_def rd_d09 d09_val)
qed

lemma ex_class: "class_min_mse ex_predict (blend rat_ops 1 0 d09) = Inr 1"
  by (simp add: class_min_mse_def ex_predict_def blend_def rat_ops_def mses_of_def mse_def
      d09_val power2_eq_square)

lemma ex_search: "th_search rat_ops ex_predict (1, 0) 0 d09 0 = Some (Inr (d09, Suc 0))"
proof -
  have "d07 < d09" by (simp add: d07_val d09_val)
  then show ?thesis
    by (subst th_search.simps) (simp add: ex_class)
qed

lemma ex_resample:
  "resample (draws_const (Suc 0)) ex_samples (1, 0) (Suc 0) (Suc 0) = Some (Inr (Suc 0, Suc 0))"
  by (subst resample.simps) (simp add: ex_samples_def)

lemma ex_one:
  "augment_one rat_ops ex_predict (draws_const (Suc 0)) ex_samples (1, 0) 0
     = Some (Inr ((d09, 0), Suc 0))"
proof -
  have "randint (draws_const (Suc 0)) 0 (length ex_samples) = Inr (Suc 0, Suc 0)"
    by (simp add: randint_def draws_const_def ex_samples_def)
  moreover have "fst (ex_samples ! Suc 0) = 0" by (simp add: ex_samples_def)
  moreover have "blend rat_ops 1 0 d09 = d09" by (simp add: blend_def rat_ops_def)
  ultimately show ?thesis
    by (simp add: augment_one_def ex_resample ex_search ex_threshold)
qed

lemma ex_prefix: "take (prefix_len (length ex_samples)) ex_samples = [(1, 0)]"
proof -
  have "prefix_len (length ex_samples) = 1"
    by (subst prefix_len_div5) (simp_all add: ex_samples_def)
  then show ?thesis by (simp add: ex_samples_def)
qed

lemma ex_run:
  "augment_data_distill rat_ops ex_predict (draws_const 1) ex_samples 0
     = Some (Inr (ex_samples @ [(d09, 0)], 1))"
  by (simp add: augment_data_distill_def ex_prefix ex_one)

section \<open>The interpolation augmentation: claims\<close>








text \<open>
  Claim C8. The list \<^verbatim>\<open>augment_data_distill\<close> returns starts with the original samples,
  unchanged and in their order; behind them stand as many new samples as the processed
  prefix is long, which is \<^verbatim>\<open>int(len(samples)*0.2)\<close>, the integer part of a fifth of the
  length; the \<open>i\<close>-th new sample carries the label of the \<open>i\<close>-th original sample; and the
  labels of the output are those of the input.
\<close>

theorem augment_data_distill_frame:
  assumes "augment_data_distill ops predict rnd samples k = Some (Inr (out, k'))"
  shows "take (length samples) out = samples
    \<and> length out = length samples + min (length samples) (prefix_len (length samples))
    \<and> (length samples < 2 ^ 32 \<longrightarrow> length out = length samples + length samples div 5)
    \<and> (\<forall>i < length out - length samples. snd (out ! (length samples + i)) = snd (samples ! i))
    \<and> set (map snd out) = set (map snd samples)"
proof -
  from augment_data_distill_sound [OF assms]
  obtain news where news: "out = samples @ news"
    "length news = length (take (prefix_len (length samples)) samples)"
    "\<forall>i < length news. interpolated ops predict rnd samples (samples ! i) (news ! i)"
    by blast
  have lab: "\<forall>i < length news. snd (news ! i) = snd (samples ! i)"
    using news(3) interpolated_label by blast
  have len: "length news \<le> length samples" by (simp add: news(2))
  have a: "take (length samples) out = samples" by (simp add: news(1))
  have b: "length out = length samples + min (length samples) (prefix_len (length samples))"
    by (simp add: news(1,2))
  have c: "length samples < 2 ^ 32 \<longrightarrow> length out = length samples + length samples div 5"
    by (simp add: b prefix_len_div5)
  have d: "\<forall>i < length out - length samples.
      snd (out ! (length samples + i)) = snd (samples ! i)"
    using lab by (simp add: news(1))
  have "set (map snd news) \<subseteq> set (map snd samples)"
  proof
    fix y assume "y \<in> set (map snd news)"
    then obtain i where i: "i < length news" "y = snd (news ! i)"
      by (auto simp: in_set_conv_nth)
    with lab len have "y = snd (samples ! i)" "i < length samples" by simp_all
    then show "y \<in> set (map snd samples)" by simp
  qed
  then have e: "set (map snd out) = set (map snd samples)"
    by (auto simp: news(1))
  from a b c d e show ?thesis by blast
qed

theorem augment_data_distill_frame_witness:
  "augment_data_distill rat_ops ex_predict (draws_const 1) ex_samples 0
       = Some (Inr (ex_samples @ [(d09, 0)], 1))
   \<and> length ex_samples < 2 ^ 32
   \<and> take (length ex_samples) (ex_samples @ [(d09, 0)]) = ex_samples
   \<and> length (ex_samples @ [(d09, 0)]) = length ex_samples + length ex_samples div 5
   \<and> snd ((ex_samples @ [(d09, 0)]) ! (length ex_samples + 0)) = snd (ex_samples ! 0)
   \<and> set (map snd (ex_samples @ [(d09, 0)])) = set (map snd ex_samples)"
proof -
  have run: "augment_data_distill rat_ops ex_predict (draws_const 1) ex_samples 0
       = Some (Inr (ex_samples @ [(d09, 0)], 1))"
    using ex_run by simp
  have small: "length ex_samples < 2 ^ 32" by (simp add: ex_samples_def)
  have "0 < length (ex_samples @ [(d09, 0)]) - length ex_samples" by simp
  with augment_data_distill_frame [OF run] run small
  show ?thesis by blast
qed




section \<open>Episodic evaluation: claims\<close>




lemma class_min_mse_Inl:
  assumes "class_min_mse predict x = Inl e"
  shows "e = ValueError \<and> fst (predict x) = []"
  using assms by (cases "fst (predict x)") (simp_all add: class_min_mse_def mses_of_def)




lemma test_loop_batch:
  assumes "test_loop predict test_loader i correct batch_i = Inr (correct', b)"
  shows "b = (if test_loader = [] then batch_i else Some (i + length test_loader - 1))"
  using assms
proof (induction test_loader arbitrary: i correct batch_i)
  case Nil
  then show ?case by simp
next
  case (Cons xy rest)
  obtain x y where xy: "xy = (x, y)" by (cases xy)
  from Cons.prems xy obtain c where c: "class_min_mse predict x = Inr c"
    by (auto split: sum.splits)
  with Cons.prems xy
  have rec: "test_loop predict rest (Suc i) (if int c = y then correct + 1 else correct) (Some i)
      = Inr (correct', b)"
    by simp
  from Cons.IH [OF rec] show ?case by (cases rest) simp_all
qed

lemma test_loop_Inl:
  assumes "test_loop predict test_loader i correct batch_i = Inl e"
  shows "e = ValueError"
  using assms
proof (induction test_loader arbitrary: i correct batch_i)
  case Nil
  then show ?case by simp
next
  case (Cons xy rest)
  obtain x y where xy: "xy = (x, y)" by (cases xy)
  show ?case
  proof (cases "class_min_mse predict x")
    case (Inl e')
    with Cons.prems xy class_min_mse_Inl [OF Inl] show ?thesis by simp
  next
    case (Inr c)
    with Cons.prems xy
    have "test_loop predict rest (Suc i) (if int c = y then correct + 1 else correct) (Some i)
      = Inl e"
      by simp
    then show ?thesis by (rule Cons.IH)
  qed
qed









text \<open>
  Claim C10. On an empty loader the loop of \<^verbatim>\<open>test\<close> never binds \<^verbatim>\<open>batch_i\<close>, and the
  accuracy computation fails with the unbound-name error; on a non-empty loader \<^verbatim>\<open>test\<close>
  never ends in that error.
\<close>

theorem test_unbound_batch_i:
  "test predict [] = Inl UnboundLocalError
   \<and> (test_loader \<noteq> [] \<longrightarrow> test predict test_loader \<noteq> Inl UnboundLocalError)"
proof -
  have a: "test predict [] = Inl UnboundLocalError" by (simp add: test_def)
  have b: "test predict test_loader \<noteq> Inl UnboundLocalError" if ne: "test_loader \<noteq> []"
  proof (cases "test_loop predict test_loader 0 0 None")
    case (Inl e)
    from test_loop_Inl [OF this] Inl show ?thesis by (simp add: test_def)
  next
    case (Inr p)
    obtain c b where p: "p = (c, b)" by (cases p)
    from test_loop_batch [of predict test_loader 0 0 None c b] Inr p ne
    have "b = Some (length test_loader - 1)" by simp
    with Inr p show ?thesis by (simp add: test_def)
  qed
  from a b show ?thesis by blast
qed

theorem test_unbound_batch_i_witness:
  "test ex_predict [] = Inl UnboundLocalError
   \<and> ex_test \<noteq> [] \<and> test ex_predict ex_test \<noteq> Inl UnboundLocalError"
proof -
  have ne: "ex_test \<noteq> []" by (simp add: ex_test_def)
  from test_unbound_batch_i [of ex_predict ex_test] ne show ?thesis by blast
qed

section \<open>Pair-sample mixing: claim\<close>






section \<open>The grid-search driver: claims\<close>

lemma itertools_product_product_lists: "itertools_product xss = product_lists xss"
  by (induction xss) simp_all

lemma length_itertools_product:
  "length (itertools_product xss) = prod_list (map length xss)"
proof (induction xss)
  case Nil
  show ?case by simp
next
  case (Cons xs xss)
  have "length (concat (map (\<lambda>x. map (\<lambda>v. x # v) (itertools_product xss)) xs))
      = length xs * length (itertools_product xss)"
    by (induction xs) simp_all
  with Cons show ?case by simp
qed

lemma set_itertools_product:
  "set (itertools_product xss) = {v. list_all2 (\<lambda>x xs. x \<in> set xs) v xss}"
  by (simp only: itertools_product_product_lists product_lists_set)

lemma grid_loop_rows:
  assumes "grid_loop D exp_func grid f t = (None, f', t')"
  shows "\<exists>rs. rows f' = rows f @ rs \<and> length rs = length grid
    \<and> (\<forall>i < length grid. \<exists>acc s.
          exp_func (grid ! i) = Inr acc
          \<and> rs ! i = AList.update ''duration_sec'' (VFloat (fsub (time D (Suc s)) (time D s)))
                       (AList.update ''accuracy'' acc (grid ! i)))"
  using assms
proof (induction grid arbitrary: f t)
  case Nil
  then show ?case by simp
next
  case (Cons param rest)
  from Cons.prems obtain acc where acc: "exp_func param = Inr acc"
    by (auto simp: Let_def split: sum.splits)
  define r where "r = AList.update ''duration_sec'' (VFloat (fsub (time D (Suc t)) (time D t)))
                       (AList.update ''accuracy'' acc param)"
  from Cons.prems acc
  have rec: "grid_loop D exp_func rest (csv_append f r) (Suc (Suc t)) = (None, f', t')"
    by (simp add: Let_def r_def)
  from Cons.IH [OF rec]
  obtain rs where rs: "rows f' = rows (csv_append f r) @ rs" "length rs = length rest"
    "\<forall>i < length rest. \<exists>acc s.
          exp_func (rest ! i) = Inr acc
          \<and> rs ! i = AList.update ''duration_sec'' (VFloat (fsub (time D (Suc s)) (time D s)))
                       (AList.update ''accuracy'' acc (rest ! i))"
    by blast
  have a: "rows f' = rows f @ (r # rs)" by (simp add: rs(1) csv_append_def)
  have b: "length (r # rs) = length (param # rest)" by (simp add: rs(2))
  have c: "\<forall>i < length (param # rest). \<exists>acc s.
          exp_func ((param # rest) ! i) = Inr acc
          \<and> (r # rs) ! i = AList.update ''duration_sec'' (VFloat (fsub (time D (Suc s)) (time D s)))
                       (AList.update ''accuracy'' acc ((param # rest) ! i))"
  proof (intro allI impI)
    fix i assume i: "i < length (param # rest)"
    show "\<exists>acc s. exp_func ((param # rest) ! i) = Inr acc
          \<and> (r # rs) ! i = AList.update ''duration_sec'' (VFloat (fsub (time D (Suc s)) (time D s)))
                       (AList.update ''accuracy'' acc ((param # rest) ! i))"
    proof (cases i)
      case 0
      with acc show ?thesis by (auto simp: r_def)
    next
      case (Suc j)
      with i rs(3) show ?thesis by simp
    qed
  qed
  from a b c show ?case by blast
qed


lemma ex_main_run:
  "main ex_driver ex_configs None 0 =
     (None,
      Some \<lparr>columns = [''dataset'', ''lr'', ''accuracy'', ''duration_sec''],
            rows = [[(''dataset'', VStr ''omniglot''), (''lr'', VFloat 1),
                     (''accuracy'', VFloat (1 / 2)), (''duration_sec'', VFloat 0)],
                    [(''dataset'', VStr ''omniglot''), (''lr'', VFloat 2),
                     (''accuracy'', VFloat (1 / 2)), (''duration_sec'', VFloat 0)]]\<rparr>,
      4)"
  by (simp add: main_def ex_driver_def ex_configs_def param_grid_def dict_get_def list_get_def
      select_exp_func_def csv_append_def fsub_def rd_def Let_def)


text \<open>
  Claim C6. A run of the driver that completes has appended to the results file one row
  for every element of the Cartesian product of the value lists, in the order of
  \<^verbatim>\<open>itertools.product\<close>: the row of a grid point is the grid point extended by the accuracy
  the selected experiment function returned for it and by the measured duration. The
  number of appended rows is the product of the lengths of the value lists.
\<close>

theorem main_appends_grid:
  assumes "main D cs file t = (None, file', t')"
  shows "\<exists>f' exp_func rs.
      file' = Some f'
      \<and> (\<exists>ds_name. select_exp_func D cs ds_name = Inr exp_func)
      \<and> rows f' = (case file of None \<Rightarrow> [] | Some f \<Rightarrow> rows f) @ rs
      \<and> length rs = prod_list (map (\<lambda>kv. length (snd kv)) cs)
      \<and> length rs = length (itertools_product (map snd cs))
      \<and> set (itertools_product (map snd cs))
          = {v. list_all2 (\<lambda>x xs. x \<in> set xs) v (map snd cs)}
      \<and> (\<forall>i < length rs. \<exists>acc s.
            exp_func (zip (map fst cs) (itertools_product (map snd cs) ! i)) = Inr acc
            \<and> rs ! i =
                AList.update ''duration_sec'' (VFloat (fsub (time D (Suc s)) (time D s)))
                  (AList.update ''accuracy'' acc
                     (zip (map fst cs) (itertools_product (map snd cs) ! i))))"
proof -
  let ?prod = "itertools_product (map snd cs)"
  let ?grid = "map (\<lambda>v. zip (map fst cs) v) ?prod"
  let ?f = "case file of None \<Rightarrow> \<lparr>columns = map fst cs, rows = []\<rparr> | Some f \<Rightarrow> f"
  from assms have ne: "cs \<noteq> []"
    by (auto simp: main_def param_grid_def split: if_splits)
  then have grid: "param_grid cs = Inr ?grid" by (simp add: param_grid_def Let_def)
  from assms grid obtain names where names: "dict_get cs ''dataset'' = Inr names"
    by (cases "dict_get cs ''dataset''") (auto simp: main_def)
  from assms grid names obtain ds_name where ds: "list_get names 0 = Inr ds_name"
    by (cases "list_get names 0") (auto simp: main_def)
  from assms grid names ds obtain exp_func where sel: "select_exp_func D cs ds_name = Inr exp_func"
    by (cases "select_exp_func D cs ds_name") (auto simp: main_def Let_def)
  from assms grid names ds sel obtain f' where
    loop: "grid_loop D exp_func ?grid ?f t = (None, f', t')" and file': "file' = Some f'"
    by (auto simp: main_def Let_def split: prod.splits)
  from grid_loop_rows [OF loop]
  obtain rs where rs: "rows f' = rows ?f @ rs" "length rs = length ?grid"
    "\<forall>i < length ?grid. \<exists>acc s.
          exp_func (?grid ! i) = Inr acc
          \<and> rs ! i = AList.update ''duration_sec'' (VFloat (fsub (time D (Suc s)) (time D s)))
                       (AList.update ''accuracy'' acc (?grid ! i))"
    by blast
  have a: "rows f' = (case file of None \<Rightarrow> [] | Some f \<Rightarrow> rows f) @ rs"
    using rs(1) by (cases "file") simp_all
  have b: "length rs = length ?prod" using rs(2) by simp
  have "map length (map snd cs) = map (\<lambda>kv. length (snd kv)) cs" by simp
  then have c: "length rs = prod_list (map (\<lambda>kv. length (snd kv)) cs)"
    using b by (simp only: length_itertools_product)
  have d: "\<forall>i < length rs. \<exists>acc s.
            exp_func (zip (map fst cs) (?prod ! i)) = Inr acc
            \<and> rs ! i =
                AList.update ''duration_sec'' (VFloat (fsub (time D (Suc s)) (time D s)))
                  (AList.update ''accuracy'' acc (zip (map fst cs) (?prod ! i)))"
    using rs(3) b by simp
  from file' sel a b c d set_itertools_product [of "map snd cs"] show ?thesis by blast
qed

theorem main_appends_grid_witness:
  "main ex_driver ex_configs None 0 =
     (None,
      Some \<lparr>columns = [''dataset'', ''lr'', ''accuracy'', ''duration_sec''],
            rows = [[(''dataset'', VStr ''omniglot''), (''lr'', VFloat 1),
                     (''accuracy'', VFloat (1 / 2)), (''duration_sec'', VFloat 0)],
                    [(''dataset'', VStr ''omniglot''), (''lr'', VFloat 2),
                     (''accuracy'', VFloat (1 / 2)), (''duration_sec'', VFloat 0)]]\<rparr>,
      4)
   \<and> length [[(''dataset'', VStr ''omniglot''), (''lr'', VFloat 1),
                (''accuracy'', VFloat (1 / 2)), (''duration_sec'', VFloat 0)],
               [(''dataset'', VStr ''omniglot''), (''lr'', VFloat 2),
                (''accuracy'', VFloat (1 / 2)), (''duration_sec'', VFloat 0)]]
       = prod_list (map (\<lambda>kv. length (snd kv)) ex_configs)"
proof -
  from main_appends_grid [OF ex_main_run]
  obtain f' rs where "Some \<lparr>columns = [''dataset'', ''lr'', ''accuracy'', ''duration_sec''],
            rows = [[(''dataset'', VStr ''omniglot''), (''lr'', VFloat 1),
                     (''accuracy'', VFloat (1 / 2)), (''duration_sec'', VFloat 0)],
                    [(''dataset'', VStr ''omniglot''), (''lr'', VFloat 2),
                     (''accuracy'', VFloat (1 / 2)), (''duration_sec'', VFloat 0)]]\<rparr> = Some f'"
    "rows f' = (case None :: csv option of None \<Rightarrow> [] | Some f \<Rightarrow> rows f) @ rs"
    "length rs = prod_list (map (\<lambda>kv. length (snd kv)) ex_configs)"
    by blast
  then have "length [[(''dataset'', VStr ''omniglot''), (''lr'', VFloat 1),
                (''accuracy'', VFloat (1 / 2)), (''duration_sec'', VFloat 0)],
               [(''dataset'', VStr ''omniglot''), (''lr'', VFloat 2),
                (''accuracy'', VFloat (1 / 2)), (''duration_sec'', VFloat 0)]]
       = prod_list (map (\<lambda>kv. length (snd kv)) ex_configs)"
    by auto
  with ex_main_run show ?thesis by (rule conjI)
qed




section \<open>The experiment scripts: claim\<close>






























end
